theory Spec2Isabelle
  imports Complex_Main
begin

section \<open>The FSK text-to-audio codec of \<open>Tools/TextToAudioEncoder.py\<close> and \<open>Tools/AudioToTextDecoder.py\<close>\<close>

text \<open>
  The encoder script turns a text into a string of the characters \<open>0\<close> and \<open>1\<close>
  (\<open>text_to_binary\<close>) and that string into a buffer of samples, one tone per bit
  (\<open>generate_encoded_sound\<close>). The decoder script cuts a buffer into windows, takes the
  dominant frequency of each window from its Fourier transform and classifies it
  (\<open>decode_audio_to_binary\<close>), then reads the bits back in groups of eight
  (\<open>binary_to_text\<close>).

  Modelling decisions, fixed here once:
  \<^item> A Python \<open>str\<close> that holds text is a list of code points (\<open>nat list\<close>): \<open>ord\<close> and
    \<open>chr\<close> are then the identity, and a code point may exceed 255. A \<open>str\<close> that holds
    bits is a HOL \<open>string\<close>.
  \<^item> Python and numpy floating-point numbers are real numbers, and the rounding of
    float64 operations is left out. \<open>generate_encoded_sound\<close> gives the sample values as
    they are computed; the buffer that holds them is a single-precision array, and the
    rounding of each stored value to single precision is \<open>to_float32\<close>, applied in
    \<open>roundtrip\<close> where the buffer is handed to the decoder.
  \<^item> The module-level parameters of both scripts are the fields of one record \<open>config\<close>,
    passed to every function that reads them; \<open>encoder_config\<close> holds the values written in
    the scripts.
  \<^item> The random generator behind \<open>random.uniform\<close> is a function \<open>rnd\<close>: \<open>rnd k\<close> is the
    value of the \<open>k\<close>-th call of \<open>random.random()\<close>; the modulator carries the number of
    calls made so far in its loop state.
  \<^item> \<open>scipy.fft.fft\<close>, \<open>np.fft.fftfreq\<close> and \<open>np.argmax\<close> are library functions; they are
    given by their documented mathematical meaning.
  \<^item> Reading and writing the WAV file is left out: the decoder receives the buffer the
    encoder returned.
\<close>

subsection \<open>Python errors\<close>

text \<open>
  \<open>ValueError\<close>, \<open>ZeroDivisionError\<close> and \<open>IndexError\<close> are the Python exceptions of these
  names. \<open>NotBits\<close> marks the one place where the model stops: \<open>int(byte, 2)\<close> on a chunk
  with a character other than \<open>0\<close> and \<open>1\<close>. Python raises \<open>ValueError\<close> for most such
  chunks but accepts a sign, surrounding blanks, underscores between digits and a \<open>0b\<close>
  prefix; none of this is modelled, and every statement about \<open>binary_to_text\<close> below is
  about strings of \<open>0\<close> and \<open>1\<close>, which is all the decoder ever builds.
\<close>

datatype py_error = ValueError | ZeroDivisionError | IndexError | NotBits

subsection \<open>Text to bits: \<open>text_to_binary\<close>\<close>

definition bit_char :: "nat \<Rightarrow> char" where
  "bit_char d = (if d = 0 then CHR ''0'' else CHR ''1'')"

text \<open>\<open>format(n, 'b')\<close>: the binary digits of \<open>n\<close>, most significant first, no leading zero.\<close>

fun bin_digits :: "nat \<Rightarrow> string" where
  "bin_digits n =
     (if n < 2 then [bit_char n]
      else bin_digits (n div 2) @ [bit_char (n mod 2)])"

declare bin_digits.simps [simp del]

text \<open>\<open>format(n, '08b')\<close>: the same digits, filled with zeros on the left up to width 8.\<close>

definition format_08b :: "nat \<Rightarrow> string" where
  "format_08b n = replicate (8 - length (bin_digits n)) CHR ''0'' @ bin_digits n"

definition text_to_binary :: "nat list \<Rightarrow> string" where
  "text_to_binary text = concat (map (\<lambda>char. format_08b char) text)"

subsection \<open>Bits to text: \<open>binary_to_text\<close>\<close>

definition is_bits :: "string \<Rightarrow> bool" where
  "is_bits s = list_all (\<lambda>c. c = CHR ''0'' \<or> c = CHR ''1'') s"

definition bits_value :: "string \<Rightarrow> nat" where
  "bits_value s = foldl (\<lambda>acc c. 2 * acc + (if c = CHR ''1'' then 1 else 0)) 0 s"

text \<open>\<open>int(s, 2)\<close> on a string of bits; the empty string is a \<open>ValueError\<close>.\<close>

definition py_int2 :: "string \<Rightarrow> py_error + nat" where
  "py_int2 s =
     (if s = [] then Inl ValueError
      else if is_bits s then Inr (bits_value s)
      else Inl NotBits)"

text \<open>
  The loop \<open>for i in range(0, len(binary), 8)\<close> with its accumulator \<open>text\<close>; the slice
  \<open>binary[i:i+8]\<close> is \<open>take 8 (drop i binary)\<close>, shorter than 8 at the end of the string.
\<close>

function btt_loop :: "string \<Rightarrow> nat \<Rightarrow> nat list \<Rightarrow> py_error + nat list" where
  "btt_loop binary i text =
     (if i < length binary then
        (let byte = take 8 (drop i binary) in
         if length byte = 8 then
           (case py_int2 byte of
              Inl e \<Rightarrow> Inl e
            | Inr v \<Rightarrow> btt_loop binary (i + 8) (text @ [v]))
         else btt_loop binary (i + 8) text)
      else Inr text)"
  by pat_completeness auto
termination
  by (relation "measure (\<lambda>(binary, i, text). length binary - i)") auto

declare btt_loop.simps [simp del]

definition binary_to_text :: "string \<Rightarrow> py_error + nat list" where
  "binary_to_text binary = btt_loop binary 0 []"

subsection \<open>Parameters\<close>

record config =
  sample_rate :: int
  bit_duration :: real
  amplitude :: real
  frequency_0 :: real
  frequency_1 :: real
  noise_range :: "real \<times> real"

text \<open>The values of the encoder script; the decoder script repeats the first four.\<close>

definition encoder_config :: config where
  "encoder_config =
     \<lparr>sample_rate = 22050, bit_duration = 2 / 100, amplitude = 1 / 10,
      frequency_0 = 1000, frequency_1 = 1500, noise_range = (- (5 / 100), 5 / 100)\<rparr>"

text \<open>\<open>int(x)\<close> on a float: truncation toward zero.\<close>

definition py_int :: "real \<Rightarrow> int" where
  "py_int x = (if 0 \<le> x then \<lfloor>x\<rfloor> else \<lceil>x\<rceil>)"

definition samples_per_bit :: "config \<Rightarrow> int" where
  "samples_per_bit cfg = py_int (bit_duration cfg * real_of_int (sample_rate cfg))"

subsection \<open>Modulator: \<open>generate_encoded_sound\<close>\<close>

text \<open>\<open>random.uniform(a, b)\<close> returns \<open>a + (b - a) * random()\<close>.\<close>

definition uniform :: "real \<Rightarrow> real \<Rightarrow> real \<Rightarrow> real" where
  "uniform a b u = a + (b - a) * u"

text \<open>
  The loop state: the buffer \<open>samples\<close>, the running index \<open>current_sample\<close> and the number
  of values drawn from the random generator.
\<close>

type_synonym enc_state = "real list \<times> nat \<times> nat"

text \<open>
  \<open>for i in range(samples_per_bit)\<close>, with the iterations still to run as the recursion
  argument. The division by \<open>sample_rate\<close> and the store into the buffer are the two
  operations of the body that can raise.
\<close>

fun inner_loop ::
  "config \<Rightarrow> (nat \<Rightarrow> real) \<Rightarrow> real \<Rightarrow> nat \<Rightarrow> enc_state \<Rightarrow> py_error + enc_state" where
  "inner_loop cfg rnd frequency 0 st = Inr st"
| "inner_loop cfg rnd frequency (Suc k) (samples, current_sample, drawn) =
     (if sample_rate cfg = 0 then Inl ZeroDivisionError
      else
        let t = real current_sample / real_of_int (sample_rate cfg);
            noise = uniform (fst (noise_range cfg)) (snd (noise_range cfg)) (rnd drawn);
            sample_value = sin (2 * pi * frequency * t) * amplitude cfg + noise
        in if current_sample < length samples
           then inner_loop cfg rnd frequency k
                  (samples[current_sample := sample_value], current_sample + 1, drawn + 1)
           else Inl IndexError)"

text \<open>\<open>for bit in binary\<close>: any character other than \<open>1\<close> selects \<open>frequency_0\<close>.\<close>

fun outer_loop ::
  "config \<Rightarrow> (nat \<Rightarrow> real) \<Rightarrow> string \<Rightarrow> enc_state \<Rightarrow> py_error + enc_state" where
  "outer_loop cfg rnd [] st = Inr st"
| "outer_loop cfg rnd (b # binary) st =
     (let frequency = (if b = CHR ''1'' then frequency_1 cfg else frequency_0 cfg)
      in case inner_loop cfg rnd frequency (nat (samples_per_bit cfg)) st of
           Inl e \<Rightarrow> Inl e
         | Inr st' \<Rightarrow> outer_loop cfg rnd binary st')"

text \<open>\<open>np.zeros\<close> raises \<open>ValueError\<close> on a negative length.\<close>

definition generate_encoded_sound ::
  "config \<Rightarrow> (nat \<Rightarrow> real) \<Rightarrow> string \<Rightarrow> py_error + real list" where
  "generate_encoded_sound cfg rnd binary =
     (let total_samples = int (length binary) * samples_per_bit cfg
      in if total_samples < 0 then Inl ValueError
         else case outer_loop cfg rnd binary (replicate (nat total_samples) 0, 0, 0) of
                Inl e \<Rightarrow> Inl e
              | Inr (samples, current_sample, drawn) \<Rightarrow> Inr samples)"

subsection \<open>Demodulator: \<open>decode_audio_to_binary\<close>\<close>

text \<open>
  \<open>scipy.fft.fft\<close>: the discrete Fourier transform
  \<open>y[k] = sum over n of x[n] * exp(-2 pi i k n / N)\<close>.
\<close>

definition fft :: "real list \<Rightarrow> complex list" where
  "fft x = map (\<lambda>k. \<Sum>n<length x. complex_of_real (x ! n) *
                    cis (- (2 * pi * real k * real n / real (length x))))
             [0..<length x]"

text \<open>
  \<open>np.fft.fftfreq(n, d)\<close>: the integers \<open>0, 1, ..., (n-1)//2, -(n//2), ..., -1\<close>, each
  multiplied by \<open>1 / (n * d)\<close>.
\<close>

definition fftfreq :: "nat \<Rightarrow> real \<Rightarrow> real list" where
  "fftfreq n d = map (\<lambda>k. (if k < (n - 1) div 2 + 1 then real k else real k - real n)
                        * (1 / (real n * d))) [0..<n]"

text \<open>\<open>np.argmax\<close>: the index of the first occurrence of the maximum.\<close>

definition argmax :: "real list \<Rightarrow> nat" where
  "argmax xs = length (takeWhile (\<lambda>x. x \<noteq> Max (set xs)) xs)"

text \<open>Lines 20 to 22 of the decoder: the dominant frequency of one window.\<close>

definition dominant_freq :: "config \<Rightarrow> real list \<Rightarrow> real" where
  "dominant_freq cfg segment =
     (let freqs = fftfreq (length segment) (1 / real_of_int (sample_rate cfg));
          fft_vals = map cmod (fft segment)
      in \<bar>freqs ! argmax fft_vals\<bar>)"

text \<open>The slice \<open>samples[i * samples_per_bit:(i + 1) * samples_per_bit]\<close>.\<close>

definition segment_at :: "config \<Rightarrow> real list \<Rightarrow> nat \<Rightarrow> real list" where
  "segment_at cfg samples i =
     take (nat (samples_per_bit cfg)) (drop (i * nat (samples_per_bit cfg)) samples)"

text \<open>Lines 24 to 27 of the decoder.\<close>

definition classify :: "config \<Rightarrow> real \<Rightarrow> char" where
  "classify cfg dominant =
     (if \<bar>dominant - frequency_1 cfg\<bar> < \<bar>dominant - frequency_0 cfg\<bar>
      then CHR ''1'' else CHR ''0'')"

text \<open>
  The floor division by \<open>samples_per_bit\<close> raises when it is zero. When it is not zero,
  \<open>sample_rate\<close> is not zero either (\<open>samples_per_bit_rate\<close> below), so \<open>1 / sample_rate\<close>
  in the loop body cannot raise; and the loop body runs only on windows of full, positive
  length, where \<open>np.argmax\<close> is defined (\<open>argmax_less\<close> below).
\<close>

definition decode_audio_to_binary :: "config \<Rightarrow> real list \<Rightarrow> py_error + string" where
  "decode_audio_to_binary cfg samples =
     (if samples_per_bit cfg = 0 then Inl ZeroDivisionError
      else
        let num_bits = int (length samples) div samples_per_bit cfg
        in Inr (fold (\<lambda>i binary.
                        binary @ [classify cfg (dominant_freq cfg (segment_at cfg samples i))])
                  [0..<nat num_bits] ''''))"

subsection \<open>Encoding followed by decoding\<close>




subsection \<open>Notions of the specification\<close>

text \<open>
  The eight bits of a byte, most significant first, written as the specification words
  it: position \<open>k\<close> of the output holds bit \<open>7 - k\<close> of the byte.
\<close>

definition msb_first_8 :: "nat \<Rightarrow> string" where
  "msb_first_8 b = map (\<lambda>k. bit_char ((b div 2 ^ (7 - k)) mod 2)) [0..<8]"

text \<open>The same for any width; used to relate \<open>format_08b\<close> to \<open>msb_first_8\<close>.\<close>

definition bits_msb :: "nat \<Rightarrow> nat \<Rightarrow> string" where
  "bits_msb w n = map (\<lambda>k. bit_char ((n div 2 ^ (w - 1 - k)) mod 2)) [0..<w]"

text \<open>The \<open>j\<close>-th group of eight characters of a bit string.\<close>

definition chunk :: "string \<Rightarrow> nat \<Rightarrow> string" where
  "chunk binary j = take 8 (drop (8 * j) binary)"

text \<open>
  The specification's derived window length, \<open>round(bitDurationSec * sampleRateHz)\<close>, and
  its notion of a valid configuration (sections 3 and 7). The scripts have no counterpart
  of either: they compute the window length with \<open>int\<close> and validate nothing.
\<close>

definition spec_samples_per_bit :: "config \<Rightarrow> int" where
  "spec_samples_per_bit cfg = round (bit_duration cfg * real_of_int (sample_rate cfg))"

definition spec_valid_config :: "config \<Rightarrow> bool" where
  "spec_valid_config cfg \<longleftrightarrow>
     0 < sample_rate cfg \<and> 0 < bit_duration cfg \<and>
     0 < frequency_0 cfg \<and> 0 < frequency_1 cfg \<and> frequency_0 cfg \<noteq> frequency_1 cfg \<and>
     0 < amplitude cfg \<and> amplitude cfg \<le> 1 \<and>
     fst (noise_range cfg) \<le> snd (noise_range cfg) \<and>
     1 \<le> spec_samples_per_bit cfg"

text \<open>The tone of a bit and the value of sample \<open>n\<close> of a tone, as closed expressions.\<close>

definition tone :: "config \<Rightarrow> char \<Rightarrow> real" where
  "tone cfg b = (if b = CHR ''1'' then frequency_1 cfg else frequency_0 cfg)"

definition wave :: "config \<Rightarrow> (nat \<Rightarrow> real) \<Rightarrow> real \<Rightarrow> nat \<Rightarrow> real" where
  "wave cfg rnd f n =
     amplitude cfg * sin (2 * pi * f * (real n / real_of_int (sample_rate cfg)))
       + uniform (fst (noise_range cfg)) (snd (noise_range cfg)) (rnd n)"


text \<open>
  One window of a noise-free tone that completes exactly \<open>m\<close> periods in \<open>N\<close> samples.
\<close>

definition sine_window :: "real \<Rightarrow> nat \<Rightarrow> nat \<Rightarrow> real list" where
  "sine_window A m N = map (\<lambda>j. A * sin (2 * pi * real m * real j / real N)) [0..<N]"

subsection \<open>Configurations used as concrete inputs\<close>


text \<open>
  Four samples per bit at four samples per second; the second tone lies above the
  sampling rate and is, sample by sample, the first tone.
\<close>

definition alias_config :: config where
  "alias_config =
     \<lparr>sample_rate = 4, bit_duration = 1, amplitude = 1,
      frequency_0 = 1, frequency_1 = 5, noise_range = (0, 0)\<rparr>"

text \<open>Four samples per bit; the frequency 1 is at equal distance from both tones.\<close>

definition tie_config :: config where
  "tie_config =
     \<lparr>sample_rate = 4, bit_duration = 1, amplitude = 1,
      frequency_0 = 1 / 2, frequency_1 = 3 / 2, noise_range = (0, 0)\<rparr>"

text \<open>Three samples per second and a bit of a quarter second: 0.75 samples per bit.\<close>

definition short_config :: config where
  "short_config =
     \<lparr>sample_rate = 3, bit_duration = 1 / 4, amplitude = 1 / 10,
      frequency_0 = 1000, frequency_1 = 1500, noise_range = (0, 0)\<rparr>"




section \<open>Lemmas\<close>

subsection \<open>Binary digits\<close>

lemma bits_msb_Suc: "bits_msb (Suc w) n = bits_msb w (n div 2) @ [bit_char (n mod 2)]"
proof -
  have "map (\<lambda>k. bit_char ((n div 2 ^ (Suc w - 1 - k)) mod 2)) [0..<w]
      = map (\<lambda>k. bit_char ((n div 2 div 2 ^ (w - 1 - k)) mod 2)) [0..<w]"
  proof (rule map_cong[OF refl])
    fix k assume "k \<in> set [0..<w]"
    then have "k < w" by simp
    then have "Suc w - 1 - k = Suc (w - 1 - k)" by simp
    then show "bit_char ((n div 2 ^ (Suc w - 1 - k)) mod 2) = bit_char ((n div 2 div 2 ^ (w - 1 - k)) mod 2)"
      by (simp add: div_mult2_eq)
  qed
  then show ?thesis by (simp add: bits_msb_def)
qed

lemma bits_msb_zero: "bits_msb w 0 = replicate w CHR ''0''"
  by (simp add: bits_msb_def bit_char_def map_replicate_const[symmetric] del: map_replicate_const)
     (metis length_upt map_replicate_const minus_nat.diff_0)

lemma bin_digits_length_pos: "0 < length (bin_digits n)"
  by (subst bin_digits.simps) simp

lemma pad_bin_digits:
  "n < 2 ^ Suc w \<Longrightarrow>
     replicate (Suc w - length (bin_digits n)) CHR ''0'' @ bin_digits n = bits_msb (Suc w) n"
proof (induction w arbitrary: n)
  case 0
  then have "n < 2" by simp
  then show ?case by (simp add: bin_digits.simps[of n] bits_msb_def)
next
  case (Suc w)
  show ?case
  proof (cases "n < 2")
    case True
    then have d: "n div 2 = 0" "n mod 2 = n" by simp_all
    from True show ?thesis
      by (simp add: bin_digits.simps[of n] bits_msb_Suc[of "Suc w"] d bits_msb_zero
          replicate_append_same)
  next
    case False
    from Suc.prems have "n div 2 < 2 ^ Suc w" by simp
    from Suc.IH[OF this] False show ?thesis
      by (simp add: bin_digits.simps[of n] bits_msb_Suc[of "Suc w"] Suc_diff_le)
  qed
qed

lemma format_08b_byte: "b < 256 \<Longrightarrow> format_08b b = msb_first_8 b"
  using pad_bin_digits[of b 7] by (simp add: format_08b_def msb_first_8_def bits_msb_def)


lemma bin_digits_is_bits: "is_bits (bin_digits n)"
proof (induction n rule: bin_digits.induct)
  case (1 n)
  show ?case
  proof (cases "n < 2")
    case True
    then show ?thesis by (simp add: bin_digits.simps[of n] is_bits_def bit_char_def)
  next
    case False
    with 1 show ?thesis by (simp add: bin_digits.simps[of n] is_bits_def bit_char_def)
  qed
qed

lemma is_bits_append: "is_bits (xs @ ys) \<longleftrightarrow> is_bits xs \<and> is_bits ys"
  by (simp add: is_bits_def)

lemma is_bits_replicate: "is_bits (replicate k CHR ''0'')"
  by (induction k) (simp_all add: is_bits_def)

lemma format_08b_is_bits: "is_bits (format_08b n)"
  by (simp add: format_08b_def is_bits_append is_bits_replicate bin_digits_is_bits)

lemma text_to_binary_is_bits: "is_bits (text_to_binary text)"
  by (induction "text") (simp_all add: text_to_binary_def is_bits_append format_08b_is_bits, simp add: is_bits_def)

lemma bin_digits_long: "2 ^ k \<le> n \<Longrightarrow> k < length (bin_digits n)"
proof (induction k arbitrary: n)
  case 0
  show ?case using bin_digits_length_pos[of n] by simp
next
  case (Suc k)
  have one: "(1::nat) \<le> 2 ^ k" by simp
  from Suc.prems have two: "2 * 2 ^ k \<le> n" by simp
  from two have "2 ^ k \<le> n div 2" by (simp add: less_eq_div_iff_mult_less_eq mult.commute)
  moreover from one two have "\<not> n < 2" by linarith
  ultimately
  show ?case using Suc.IH[of "n div 2"] by (simp add: bin_digits.simps[of n])
qed

lemma bin_digits_short: "n < 2 ^ Suc k \<Longrightarrow> length (bin_digits n) \<le> Suc k"
proof -
  assume "n < 2 ^ Suc k"
  from pad_bin_digits[OF this]
  have "length (replicate (Suc k - length (bin_digits n)) CHR ''0'' @ bin_digits n)
      = length (bits_msb (Suc k) n)" by (rule arg_cong)
  then have "(Suc k - length (bin_digits n)) + length (bin_digits n) = Suc k"
    by (simp add: bits_msb_def)
  then show ?thesis by arith
qed

lemma format_08b_length: "length (format_08b n) = max 8 (length (bin_digits n))"
  by (simp add: format_08b_def)

lemma format_08b_length_byte: "n < 256 \<Longrightarrow> length (format_08b n) = 8"
  using bin_digits_short[of n 7] by (simp add: format_08b_length)

lemma format_08b_length_wide: "256 \<le> n \<Longrightarrow> 8 < length (format_08b n)"
  using bin_digits_long[of 8 n] by (simp add: format_08b_length)

lemma format_08b_length_ge: "8 \<le> length (format_08b n)"
  by (simp add: format_08b_length)

lemma text_to_binary_length_ge: "8 * length text \<le> length (text_to_binary text)"
proof (induction "text")
  case Nil
  then show ?case by (simp add: text_to_binary_def)
next
  case (Cons c cs)
  then show ?case using format_08b_length_ge[of c] by (simp add: text_to_binary_def)
qed

lemma text_to_binary_length_bytes:
  "\<forall>c\<in>set text. c < 256 \<Longrightarrow> length (text_to_binary text) = 8 * length text"
  by (induction "text") (simp_all add: text_to_binary_def format_08b_length_byte)

lemma text_to_binary_length_wide:
  "\<exists>c\<in>set text. 256 \<le> c \<Longrightarrow> 8 * length text < length (text_to_binary text)"
proof (induction "text")
  case Nil
  then show ?case by simp
next
  case (Cons c cs)
  show ?case
  proof (cases "256 \<le> c")
    case True
    then show ?thesis
      using format_08b_length_wide[of c] text_to_binary_length_ge[of cs]
      by (simp add: text_to_binary_def)
  next
    case False
    with Cons.prems have "\<exists>c\<in>set cs. 256 \<le> c" by simp
    from Cons.IH[OF this] show ?thesis
      using format_08b_length_ge[of c] by (simp add: text_to_binary_def)
  qed
qed


lemma bits_value_snoc:
  "bits_value (s @ [c]) = 2 * bits_value s + (if c = CHR ''1'' then 1 else 0)"
  by (simp add: bits_value_def)

lemma bits_value_bound: "bits_value s < 2 ^ length s"
proof (induction s rule: rev_induct)
  case Nil
  then show ?case by (simp add: bits_value_def)
next
  case (snoc c s)
  then show ?case by (simp add: bits_value_snoc)
qed

lemma bits_value_bit_char: "d < 2 \<Longrightarrow> (if bit_char d = CHR ''1'' then 1 else 0) = d"
  by (cases "d = 0") (simp_all add: bit_char_def)



lemma is_bits_take_drop: "is_bits s \<Longrightarrow> is_bits (take a (drop b s))"
  by (auto simp: is_bits_def list_all_iff dest: in_set_takeD in_set_dropD)

lemma btt_loop_closed:
  "is_bits binary \<Longrightarrow> i = 8 * q \<Longrightarrow>
     btt_loop binary i acc =
       Inr (acc @ map (\<lambda>j. bits_value (chunk binary j)) [q..<length binary div 8])"
proof (induction binary i acc arbitrary: q rule: btt_loop.induct)
  case (1 binary i acc)
  show ?case
  proof (cases "i < length binary")
    case False
    with 1(4) have "length binary div 8 \<le> q" by simp
    with False show ?thesis by (simp add: btt_loop.simps[of binary i])
  next
    case True
    let ?byte = "take 8 (drop i binary)"
    show ?thesis
    proof (cases "length ?byte = 8")
      case full: True
      then have q: "q < length binary div 8" using 1(4) True by (simp; arith?)
      have bits: "is_bits ?byte" using 1(3) by (rule is_bits_take_drop)
      have ne: "?byte \<noteq> []" using full by auto
      have pv: "py_int2 ?byte = Inr (bits_value ?byte)"
        using bits ne by (simp add: py_int2_def)
      have nxt: "i + 8 = 8 * Suc q" using 1(4) by simp
      have "btt_loop binary (i + 8) (acc @ [bits_value ?byte]) =
              Inr ((acc @ [bits_value ?byte]) @
                   map (\<lambda>j. bits_value (chunk binary j)) [Suc q..<length binary div 8])"
        by (rule 1(1)[OF True refl full pv 1(3) nxt])
      moreover have "[q..<length binary div 8] = q # [Suc q..<length binary div 8]"
        using q by (simp add: upt_conv_Cons)
      moreover have "chunk binary q = ?byte" using 1(4) by (simp add: chunk_def)
      moreover have "btt_loop binary i acc = btt_loop binary (i + 8) (acc @ [bits_value ?byte])"
        by (subst btt_loop.simps) (simp only: True full pv Let_def if_True sum.case simp_thms)
      ultimately show ?thesis by simp
    next
      case part: False
      then have q: "length binary div 8 \<le> q" using 1(4) True by (simp; arith?)
      have nxt: "i + 8 = 8 * Suc q" using 1(4) by simp
      have "btt_loop binary (i + 8) acc =
              Inr (acc @ map (\<lambda>j. bits_value (chunk binary j)) [Suc q..<length binary div 8])"
        by (rule 1(2)[OF True refl part 1(3) nxt])
      moreover have "btt_loop binary i acc = btt_loop binary (i + 8) acc"
        by (subst btt_loop.simps) (simp only: True part Let_def if_True if_False simp_thms)
      ultimately show ?thesis using q by simp
    qed
  qed
qed

lemma binary_to_text_closed:
  "is_bits binary \<Longrightarrow>
     binary_to_text binary = Inr (map (\<lambda>j. bits_value (chunk binary j)) [0..<length binary div 8])"
  using btt_loop_closed[of binary 0 0 "[]"] by (simp add: binary_to_text_def)




lemma bits_value_bin_digits: "bits_value (bin_digits n) = n"
proof (induction n rule: bin_digits.induct)
  case (1 n)
  show ?case
  proof (cases "n < 2")
    case True
    then show ?thesis
      using bits_value_bit_char[of n] by (simp add: bin_digits.simps[of n] bits_value_def)
  next
    case False
    with 1 show ?thesis
      using bits_value_bit_char[of "n mod 2"]
      by (simp add: bin_digits.simps[of n] bits_value_snoc)
  qed
qed

lemma bits_value_leading_zeros: "bits_value (replicate k CHR ''0'' @ s) = bits_value s"
proof (induction s rule: rev_induct)
  case Nil
  show ?case by (induction k) (simp_all add: bits_value_def)
next
  case (snoc c s)
  then show ?case by (simp add: bits_value_snoc append_assoc[symmetric] del: append_assoc)
qed

lemma bits_value_format_08b_any: "bits_value (format_08b n) = n"
  by (simp add: format_08b_def bits_value_leading_zeros bits_value_bin_digits)

lemma binary_to_text_bytes:
  assumes "is_bits binary" and "binary_to_text binary = Inr t"
  shows "\<forall>c\<in>set t. c < 256"
proof -
  have "bits_value (chunk binary j) < 256" for j
  proof -
    have "bits_value (chunk binary j) < 2 ^ length (chunk binary j)" by (rule bits_value_bound)
    also have "\<dots> \<le> 2 ^ 8" by (rule power_increasing) (simp_all add: chunk_def)
    finally show ?thesis by simp
  qed
  with assms show ?thesis by (auto simp: binary_to_text_closed)
qed

subsection \<open>The modulator loops in closed form\<close>

lemma samples_per_bit_rate: "samples_per_bit cfg \<noteq> 0 \<Longrightarrow> sample_rate cfg \<noteq> 0"
  by (auto simp: samples_per_bit_def py_int_def)

lemma spec_valid_config_samples_per_bit:
  "spec_valid_config cfg \<Longrightarrow> 0 \<le> samples_per_bit cfg"
  by (simp add: spec_valid_config_def samples_per_bit_def py_int_def)

lemma inner_loop_closed:
  "cs + k \<le> length s \<Longrightarrow> (0 < k \<longrightarrow> sample_rate cfg \<noteq> 0) \<Longrightarrow>
   inner_loop cfg rnd f k (s, cs, cs) =
     Inr (map (\<lambda>n. if cs \<le> n \<and> n < cs + k then wave cfg rnd f n else s ! n) [0..<length s],
          cs + k, cs + k)"
proof (induction k arbitrary: s cs)
  case 0
  have "(\<lambda>n. if cs \<le> n \<and> n < cs + 0 then wave cfg rnd f n else s ! n) = (\<lambda>n. s ! n)"
    by auto
  then show ?case by (simp add: map_nth)
next
  case (Suc k)
  let ?v = "wave cfg rnd f cs"
  from Suc.prems have sr: "sample_rate cfg \<noteq> 0" and lt: "cs < length s" by simp_all
  have step: "inner_loop cfg rnd f (Suc k) (s, cs, cs) = inner_loop cfg rnd f k (s[cs := ?v], Suc cs, Suc cs)"
    using sr lt by (simp add: wave_def Let_def mult.commute)
  have "inner_loop cfg rnd f k (s[cs := ?v], Suc cs, Suc cs) =
     Inr (map (\<lambda>n. if Suc cs \<le> n \<and> n < Suc cs + k then wave cfg rnd f n else s[cs := ?v] ! n)
            [0..<length (s[cs := ?v])], Suc cs + k, Suc cs + k)"
    using Suc.prems sr by (intro Suc.IH) simp_all
  moreover have "map (\<lambda>n. if Suc cs \<le> n \<and> n < Suc cs + k then wave cfg rnd f n else s[cs := ?v] ! n)
            [0..<length (s[cs := ?v])]
        = map (\<lambda>n. if cs \<le> n \<and> n < cs + Suc k then wave cfg rnd f n else s ! n) [0..<length s]"
    using lt by (auto simp: nth_list_update)
  ultimately show ?case using step by simp
qed


lemma outer_loop_closed:
  "N = nat (samples_per_bit cfg) \<Longrightarrow> cs + length binary * N \<le> length s \<Longrightarrow>
   outer_loop cfg rnd binary (s, cs, cs) =
     Inr (map (\<lambda>n. if cs \<le> n \<and> n < cs + length binary * N
                    then wave cfg rnd (tone cfg (binary ! ((n - cs) div N))) n else s ! n)
            [0..<length s],
          cs + length binary * N, cs + length binary * N)"
proof (induction binary arbitrary: s cs)
  case Nil
  have "(\<lambda>n. if cs \<le> n \<and> n < cs + length ([]::string) * N
                    then wave cfg rnd (tone cfg ([] ! ((n - cs) div N))) n else s ! n) = (\<lambda>n. s ! n)"
    by auto
  then show ?case by (simp add: map_nth)
next
  case (Cons b bs)
  let ?s' = "map (\<lambda>n. if cs \<le> n \<and> n < cs + N then wave cfg rnd (tone cfg b) n else s ! n)
               [0..<length s]"
  have sr: "0 < N \<longrightarrow> sample_rate cfg \<noteq> 0"
    using Cons.prems(1) samples_per_bit_rate[of cfg] by auto
  have inner: "inner_loop cfg rnd (tone cfg b) N (s, cs, cs) = Inr (?s', cs + N, cs + N)"
    using Cons.prems(2) sr by (intro inner_loop_closed) simp_all
  have rest: "outer_loop cfg rnd bs (?s', cs + N, cs + N) =
     Inr (map (\<lambda>n. if cs + N \<le> n \<and> n < cs + N + length bs * N
                    then wave cfg rnd (tone cfg (bs ! ((n - (cs + N)) div N))) n else ?s' ! n)
            [0..<length ?s'],
          cs + N + length bs * N, cs + N + length bs * N)"
    using Cons.prems by (intro Cons.IH) simp_all
  let ?g1 = "\<lambda>n. if cs + N \<le> n \<and> n < cs + N + length bs * N
                    then wave cfg rnd (tone cfg (bs ! ((n - (cs + N)) div N))) n else ?s' ! n"
  let ?g2 = "\<lambda>n. if cs \<le> n \<and> n < cs + length (b # bs) * N
                    then wave cfg rnd (tone cfg ((b # bs) ! ((n - cs) div N))) n else s ! n"
  have pt: "?g1 n = ?g2 n" if n: "n < length s" for n
  proof -
    consider (before) "n < cs" | (first) "cs \<le> n" "n < cs + N"
      | (later) "cs + N \<le> n" "n < cs + N + length bs * N" | (after) "cs + N + length bs * N \<le> n"
      by linarith
    then show ?thesis
    proof cases
      case before
      with n show ?thesis by simp
    next
      case first
      with n show ?thesis by simp
    next
      case later
      then have "0 < N" by (cases "N = 0") simp_all
      with later have "(n - cs) div N = Suc ((n - cs - N) div N)"
        by (intro le_div_geq) simp_all
      then have "(n - cs) div N = Suc ((n - (cs + N)) div N)" by simp
      with later n show ?thesis by simp
    next
      case after
      with n show ?thesis by simp
    qed
  qed
  have eq: "map ?g1 [0..<length ?s'] = map ?g2 [0..<length s]"
  proof (rule map_cong)
    show "[0..<length ?s'] = [0..<length s]" by simp
  next
    fix n assume "n \<in> set [0..<length s]"
    then have "n < length s" by simp
    then show "?g1 n = ?g2 n" by (rule pt)
  qed
  have "outer_loop cfg rnd (b # bs) (s, cs, cs) = outer_loop cfg rnd bs (?s', cs + N, cs + N)"
    using inner Cons.prems(1) by (simp add: tone_def)
  with rest eq show ?case by (simp add: add.assoc)
qed

lemma generate_encoded_sound_closed:
  assumes "0 \<le> samples_per_bit cfg"
  shows "generate_encoded_sound cfg rnd binary =
     Inr (map (\<lambda>n. wave cfg rnd (tone cfg (binary ! (n div nat (samples_per_bit cfg)))) n)
            [0..<length binary * nat (samples_per_bit cfg)])"
proof -
  let ?N = "nat (samples_per_bit cfg)"
  have tot: "nat (int (length binary) * samples_per_bit cfg) = length binary * ?N"
    using assms by (simp add: nat_mult_distrib)
  have nn: "\<not> int (length binary) * samples_per_bit cfg < 0"
    using assms by (simp add: not_less)
  have "outer_loop cfg rnd binary (replicate (length binary * ?N) 0, 0, 0) =
     Inr (map (\<lambda>n. if 0 \<le> n \<and> n < 0 + length binary * ?N
                    then wave cfg rnd (tone cfg (binary ! ((n - 0) div ?N))) n
                    else replicate (length binary * ?N) 0 ! n)
            [0..<length (replicate (length binary * ?N) (0::real))],
          0 + length binary * ?N, 0 + length binary * ?N)"
    by (intro outer_loop_closed) simp_all
  moreover have "map (\<lambda>n. if 0 \<le> n \<and> n < 0 + length binary * ?N
                    then wave cfg rnd (tone cfg (binary ! ((n - 0) div ?N))) n
                    else replicate (length binary * ?N) 0 ! n)
            [0..<length (replicate (length binary * ?N) (0::real))]
      = map (\<lambda>n. wave cfg rnd (tone cfg (binary ! (n div ?N))) n) [0..<length binary * ?N]"
    by (rule nth_equalityI) simp_all
  ultimately show ?thesis
    using nn by (simp add: generate_encoded_sound_def tot Let_def)
qed

subsection \<open>The demodulator loop in closed form\<close>

lemma fold_snoc_map: "fold (\<lambda>i acc. acc @ [f i]) xs acc0 = acc0 @ map f xs"
  by (induction xs arbitrary: acc0) simp_all

lemma decode_closed:
  "1 \<le> samples_per_bit cfg \<Longrightarrow>
   decode_audio_to_binary cfg samples =
     Inr (map (\<lambda>i. classify cfg (dominant_freq cfg (segment_at cfg samples i)))
            [0..<length samples div nat (samples_per_bit cfg)])"
proof -
  assume a: "1 \<le> samples_per_bit cfg"
  then have "nat (int (length samples) div samples_per_bit cfg)
           = length samples div nat (samples_per_bit cfg)"
    by (simp add: nat_div_distrib)
  with a show ?thesis
    by (simp add: decode_audio_to_binary_def fold_snoc_map Let_def)
qed

lemma argmax_eqI:
  assumes m: "m < length xs"
    and le: "\<And>j. j < length xs \<Longrightarrow> xs ! j \<le> xs ! m"
    and lt: "\<And>j. j < m \<Longrightarrow> xs ! j < xs ! m"
  shows "argmax xs = m"
proof -
  have mx: "Max (set xs) = xs ! m"
  proof (rule Max_eqI)
    show "finite (set xs)" by simp
    show "xs ! m \<in> set xs" using m by simp
    fix y assume "y \<in> set xs"
    then obtain j where "j < length xs" "y = xs ! j" by (auto simp: in_set_conv_nth)
    then show "y \<le> xs ! m" using le by simp
  qed
  have "takeWhile (\<lambda>x. x \<noteq> Max (set xs)) xs = take m xs"
  proof (rule takeWhile_eq_take_P_nth)
    fix i assume "i < m" "i < length xs"
    then show "xs ! i \<noteq> Max (set xs)" using lt[of i] mx by simp
  next
    show "\<not> xs ! m \<noteq> Max (set xs)" using mx by simp
  qed
  then show ?thesis using m by (simp add: argmax_def)
qed

lemma argmax_less: "xs \<noteq> [] \<Longrightarrow> argmax xs < length xs"
proof (rule ccontr)
  assume ne: "xs \<noteq> []" and "\<not> argmax xs < length xs"
  then have "length (takeWhile (\<lambda>x. x \<noteq> Max (set xs)) xs) = length xs"
    using length_takeWhile_le[of "\<lambda>x. x \<noteq> Max (set xs)" xs] by (simp add: argmax_def)
  then have "takeWhile (\<lambda>x. x \<noteq> Max (set xs)) xs = xs"
    using takeWhile_eq_take[of "\<lambda>x. x \<noteq> Max (set xs)" xs] by simp
  then have "\<forall>x\<in>set xs. x \<noteq> Max (set xs)" by simp
  moreover have "Max (set xs) \<in> set xs" using ne by (intro Max_in) simp_all
  ultimately show False by blast
qed

subsection \<open>The spectrum of a tone that fits the window\<close>

lemma cis_eq_one_imp: "cis x = 1 \<Longrightarrow> \<exists>n::int. x = of_int n * 2 * pi"
proof -
  assume "cis x = 1"
  then have "cos x = 1" by (simp add: complex_eq_iff)
  then show ?thesis by (simp add: cos_one_2pi_int)
qed

lemma root_sum:
  fixes d :: int and N :: nat
  assumes N: "0 < N"
  shows "(\<Sum>n<N. cis (2 * pi * real_of_int d * real n / real N)) =
           (if int N dvd d then of_nat N else 0)"
proof -
  let ?x = "cis (2 * pi * real_of_int d / real N)"
  have pw: "cis (2 * pi * real_of_int d * real n / real N) = ?x ^ n" for n
    by (simp add: DeMoivre algebra_simps)
  have xN: "?x ^ N = 1"
  proof -
    have "?x ^ N = cis (2 * pi * real_of_int d)" using N by (simp add: DeMoivre)
    then show ?thesis by simp
  qed
  show ?thesis
  proof (cases "int N dvd d")
    case True
    then obtain q where "d = int N * q" ..
    then have "2 * pi * real_of_int d / real N = 2 * pi * real_of_int q" using N by simp
    then have "?x = 1" by simp
    then show ?thesis using True by (simp add: pw)
  next
    case False
    have "?x \<noteq> 1"
    proof
      assume "?x = 1"
      then obtain n :: int where "2 * pi * real_of_int d / real N = of_int n * 2 * pi"
        using cis_eq_one_imp by blast
      then have "real_of_int d = real_of_int n * real N" using N by (simp add: field_simps)
      then have "real_of_int d = real_of_int (n * int N)" by simp
      then have "d = n * int N" by (simp only: of_int_eq_iff)
      with False show False by simp
    qed
    then have "(\<Sum>n<N. ?x ^ n) = (?x ^ N - 1) / (?x - 1)" by (rule geometric_sum)
    with xN False show ?thesis by (simp add: pw)
  qed
qed

lemma sin_as_cis: "2 * \<i> * complex_of_real (sin x) = cis x - cis (- x)"
  by (simp add: complex_eq_iff)

lemma fft_sine_window:
  assumes N: "0 < N" and k: "k < N"
  shows "2 * \<i> * (fft (sine_window A m N) ! k) =
           complex_of_real A *
             ((if int N dvd int m - int k then of_nat N else 0)
              - (if int N dvd - (int m + int k) then of_nat N else 0))"
proof -
  let ?th = "\<lambda>n. 2 * pi * real m * real n / real N"
  let ?ph = "\<lambda>n. 2 * pi * real k * real n / real N"
  have tm: "2 * \<i> * (complex_of_real (A * sin (?th n)) * cis (- ?ph n)) =
        complex_of_real A *
          (cis (2 * pi * real_of_int (int m - int k) * real n / real N)
           - cis (2 * pi * real_of_int (- (int m + int k)) * real n / real N))" for n
  proof -
    have "2 * \<i> * (complex_of_real (A * sin (?th n)) * cis (- ?ph n)) =
          complex_of_real A * ((2 * \<i> * complex_of_real (sin (?th n))) * cis (- ?ph n))"
      by (simp add: algebra_simps)
    also have "\<dots> = complex_of_real A * ((cis (?th n) - cis (- ?th n)) * cis (- ?ph n))"
      by (simp only: sin_as_cis)
    also have "\<dots> = complex_of_real A * (cis (?th n + - ?ph n) - cis (- ?th n + - ?ph n))"
      by (simp only: left_diff_distrib cis_mult)
    also have "?th n + - ?ph n = 2 * pi * real_of_int (int m - int k) * real n / real N"
      using N by (simp add: field_simps)
    also have "- ?th n + - ?ph n = 2 * pi * real_of_int (- (int m + int k)) * real n / real N"
      using N by (simp add: field_simps)
    finally show ?thesis .
  qed
  have "fft (sine_window A m N) ! k =
          (\<Sum>n<N. complex_of_real (A * sin (?th n)) * cis (- ?ph n))"
    using k by (simp add: fft_def sine_window_def)
  then have "2 * \<i> * (fft (sine_window A m N) ! k) =
          (\<Sum>n<N. 2 * \<i> * (complex_of_real (A * sin (?th n)) * cis (- ?ph n)))"
    by (simp only: sum_distrib_left)
  also have "\<dots> = (\<Sum>n<N. complex_of_real A *
          (cis (2 * pi * real_of_int (int m - int k) * real n / real N)
           - cis (2 * pi * real_of_int (- (int m + int k)) * real n / real N)))"
    by (simp only: tm)
  also have "\<dots> = complex_of_real A *
          ((\<Sum>n<N. cis (2 * pi * real_of_int (int m - int k) * real n / real N))
           - (\<Sum>n<N. cis (2 * pi * real_of_int (- (int m + int k)) * real n / real N)))"
    by (simp only: sum_distrib_left[symmetric] sum_subtractf)
  finally show ?thesis by (simp only: root_sum[OF N])
qed


lemma dvd_diff_bin:
  assumes "k < N"
  shows "int N dvd int m - int k \<longleftrightarrow> k = m mod N"
proof -
  have "int N dvd int m - int k \<longleftrightarrow> int m mod int N = int k mod int N"
    by (simp add: mod_eq_dvd_iff)
  also have "\<dots> \<longleftrightarrow> int (m mod N) = int (k mod N)"
    by (simp only: zmod_int)
  also have "\<dots> \<longleftrightarrow> m mod N = k" using assms by simp
  finally show ?thesis by auto
qed

lemma dvd_sum_bin:
  assumes k: "k < N" and r: "0 < m mod N"
  shows "int N dvd - (int m + int k) \<longleftrightarrow> k = N - m mod N"
proof -
  have rN: "m mod N < N" using k by simp
  have "int N dvd - (int m + int k) \<longleftrightarrow> int N dvd int (m + k)"
    by (simp only: dvd_minus_iff of_nat_add)
  also have "\<dots> \<longleftrightarrow> N dvd m + k" by (simp only: int_dvd_int_iff)
  also have "\<dots> \<longleftrightarrow> (m mod N + k) mod N = 0" by (simp add: dvd_eq_mod_eq_0 mod_simps)
  also have "\<dots> \<longleftrightarrow> m mod N + k = N"
  proof
    assume z: "(m mod N + k) mod N = 0"
    show "m mod N + k = N"
    proof (cases "m mod N + k < N")
      case True
      with z r show ?thesis by simp
    next
      case False
      have "m mod N + k - N < N" using rN k by arith
      with False have "(m mod N + k) mod N = m mod N + k - N"
        by (simp add: le_mod_geq)
      with z False show ?thesis by simp
    qed
  next
    assume "m mod N + k = N"
    then show "(m mod N + k) mod N = 0" by simp
  qed
  finally show ?thesis using rN by auto
qed

lemma cmod_fft_sine_window:
  assumes N: "0 < N" and k: "k < N" and r: "0 < m mod N" and half: "2 * (m mod N) \<noteq> N"
  shows "cmod (fft (sine_window A m N) ! k) =
           (if k = m mod N \<or> k = N - m mod N then \<bar>A\<bar> * real N / 2 else 0)"
proof -
  let ?X = "fft (sine_window A m N) ! k"
  have ne: "m mod N \<noteq> N - m mod N" using half by arith
  have "2 * \<i> * ?X = complex_of_real A *
             ((if k = m mod N then of_nat N else 0) - (if k = N - m mod N then of_nat N else 0))"
    by (simp only: fft_sine_window[OF N k] dvd_diff_bin[OF k] dvd_sum_bin[OF k r])
  then have "cmod (2 * \<i> * ?X) = cmod (complex_of_real A *
             ((if k = m mod N then of_nat N else 0) - (if k = N - m mod N then of_nat N else 0)))"
    by simp
  then have "2 * cmod ?X = \<bar>A\<bar> * cmod
             ((if k = m mod N then of_nat N else 0) - (if k = N - m mod N then of_nat N else 0))"
    by (simp only: norm_mult norm_of_real norm_ii norm_numeral mult_1_right)
  then show ?thesis using ne by (auto simp: norm_minus_commute)
qed


lemma length_fft: "length (fft x) = length x"
  by (simp add: fft_def)

lemma length_sine_window: "length (sine_window A m N) = N"
  by (simp add: sine_window_def)

lemma argmax_fft_sine_window:
  assumes N: "0 < N" and r: "0 < m mod N" and half: "2 * (m mod N) \<noteq> N" and A: "A \<noteq> 0"
  shows "argmax (map cmod (fft (sine_window A m N))) = min (m mod N) (N - m mod N)"
proof (rule argmax_eqI)
  let ?k = "min (m mod N) (N - m mod N)"
  have rN: "m mod N < N" using N by simp
  have kN: "?k < N" using rN by simp
  have len: "length (map cmod (fft (sine_window A m N))) = N"
    by (simp add: length_fft length_sine_window)
  have nth: "map cmod (fft (sine_window A m N)) ! j =
     (if j = m mod N \<or> j = N - m mod N then \<bar>A\<bar> * real N / 2 else 0)" if "j < N" for j
    using that by (simp add: length_fft length_sine_window cmod_fft_sine_window[OF N that r half])
  have top: "map cmod (fft (sine_window A m N)) ! ?k = \<bar>A\<bar> * real N / 2"
    using nth[OF kN] by (simp add: min_def)
  have pos: "0 < \<bar>A\<bar> * real N / 2" using A N by simp
  show "?k < length (map cmod (fft (sine_window A m N)))" using kN len by simp
  show "map cmod (fft (sine_window A m N)) ! j \<le> map cmod (fft (sine_window A m N)) ! ?k"
    if "j < length (map cmod (fft (sine_window A m N)))" for j
  proof -
    from that len have "j < N" by simp
    from nth[OF this] top pos show ?thesis by (simp del: nth_map)
  qed
  show "map cmod (fft (sine_window A m N)) ! j < map cmod (fft (sine_window A m N)) ! ?k"
    if "j < ?k" for j
  proof -
    from that kN have jN: "j < N" by arith
    from that have "j \<noteq> m mod N" "j \<noteq> N - m mod N" by simp_all
    with nth[OF jN] top pos show ?thesis by (simp del: nth_map)
  qed
qed

lemma fftfreq_nth_low:
  assumes "2 * k < n"
  shows "fftfreq n d ! k = real k * (1 / (real n * d))"
proof -
  from assms have "k < n" and "k < (n - 1) div 2 + 1" by arith+
  then show ?thesis by (simp add: fftfreq_def)
qed

lemma dominant_freq_sine_window:
  assumes N: "0 < N" and r: "0 < m mod N" and half: "2 * (m mod N) \<noteq> N" and A: "A \<noteq> 0"
    and sr: "0 < sample_rate cfg"
  shows "dominant_freq cfg (sine_window A m N) =
           real (min (m mod N) (N - m mod N)) * real_of_int (sample_rate cfg) / real N"
proof -
  let ?k = "min (m mod N) (N - m mod N)"
  have "2 * ?k < N" using half N by (simp add: min_def) arith
  then have "fftfreq N (1 / real_of_int (sample_rate cfg)) ! ?k
              = real ?k * (1 / (real N * (1 / real_of_int (sample_rate cfg))))"
    by (rule fftfreq_nth_low)
  also have "\<dots> = real ?k * real_of_int (sample_rate cfg) / real N"
    using N sr by (simp add: field_simps)
  finally have f: "fftfreq N (1 / real_of_int (sample_rate cfg)) ! ?k
              = real ?k * real_of_int (sample_rate cfg) / real N" .
  have "0 \<le> real ?k * real_of_int (sample_rate cfg) / real N" using sr by simp
  then have "\<bar>real ?k * real_of_int (sample_rate cfg) / real N\<bar>
           = real ?k * real_of_int (sample_rate cfg) / real N" by (rule abs_of_nonneg)
  then show ?thesis
    unfolding dominant_freq_def Let_def length_sine_window
      argmax_fft_sine_window[OF N r half A] f .
qed

subsection \<open>Decoding what the modulator produced\<close>




subsection \<open>Facts about the concrete configurations\<close>

lemma samples_per_bit_encoder_config: "samples_per_bit encoder_config = 441"
  by (simp add: samples_per_bit_def py_int_def encoder_config_def)

lemma samples_per_bit_tie_config: "samples_per_bit tie_config = 4"
  by (simp add: samples_per_bit_def py_int_def tie_config_def)


lemma sine_window_1_1_4: "sine_window 1 1 4 = [0, 1, 0, - 1]"
proof -
  have s1: "sin (pi / 2) = 1" by simp
  have s3: "sin (pi * 3 / 2) = - 1"
  proof -
    have "pi * 3 / 2 = pi / 2 + pi" by simp
    then show ?thesis by (simp only: sin_periodic_pi sin_pi_half)
  qed
  have "[0..<4] = [0, 1, 2, 3::nat]" by (simp add: upt_rec)
  then show ?thesis using s1 s3 by (simp add: sine_window_def)
qed

lemma dominant_freq_tie_window: "dominant_freq tie_config [0, 1, 0, - 1] = 1"
proof -
  have d: "dominant_freq tie_config (sine_window 1 1 4)
      = real (min (1 mod 4) (4 - 1 mod 4)) * real_of_int (sample_rate tie_config) / real 4"
    by (rule dominant_freq_sine_window) (simp_all add: tie_config_def)
  have v: "real (min (1 mod 4) (4 - 1 mod 4)) * real_of_int (sample_rate tie_config) / real 4 = 1"
    by (simp add: tie_config_def)
  show ?thesis unfolding sine_window_1_1_4[symmetric] using d v by (simp only:)
qed

subsection \<open>Rounding to single precision\<close>























subsection \<open>Decoding the single-precision buffer\<close>





subsection \<open>Windows of four samples and the counterexample configurations\<close>






























section \<open>The claims\<close>


subsection \<open>C7: bytes to bits\<close>

text \<open>
  Claim C7. For a text whose characters are bytes (code points below 256),
  \<open>text_to_binary\<close> returns the concatenation, in input order, of the eight bits of each
  byte, most significant bit first, so the output has exactly \<open>8 * len(text)\<close> characters.
  The function is total: it has no error result.
\<close>

theorem text_to_binary_msb_first:
  assumes "\<forall>c\<in>set text. c < 256"
  shows "text_to_binary text = concat (map msb_first_8 text) \<and>
         length (text_to_binary text) = 8 * length text"
proof -
  have "map format_08b text = map msb_first_8 text"
    using assms by (intro map_cong[OF refl]) (simp add: format_08b_byte)
  then have "text_to_binary text = concat (map msb_first_8 text)"
    by (simp only: text_to_binary_def)
  moreover have "length (text_to_binary text) = 8 * length text"
    using assms by (rule text_to_binary_length_bytes)
  ultimately show ?thesis by (rule conjI)
qed

theorem text_to_binary_msb_first_witness:
  "(65::nat) < 256 \<and> (255::nat) < 256 \<and>
   text_to_binary [65, 255] = ''0100000111111111'' \<and>
   length (text_to_binary [65, 255]) = 16"
  using text_to_binary_msb_first[of "[65, 255]"] by (simp add: msb_first_8_def bit_char_def upt_rec)

subsection \<open>C8: bits to bytes\<close>

text \<open>
  Claim C8. On a string of bits, \<open>binary_to_text\<close> returns without error the values of
  the groups of eight bits, in order, for the \<open>len(bits) div 8\<close> complete groups only: the
  result is that of the string cut after its last complete group, so a shorter trailing
  group is dropped, neither padded nor reported. Twelve bits give exactly one byte, the
  value of the first eight bits, and the empty string gives the empty text.
\<close>

theorem binary_to_text_drops_trailing:
  "(is_bits bits \<longrightarrow>
      binary_to_text bits = Inr (map (\<lambda>j. bits_value (chunk bits j)) [0..<length bits div 8]) \<and>
      binary_to_text bits = binary_to_text (take (8 * (length bits div 8)) bits)) \<and>
   (is_bits bits \<and> length bits = 12 \<longrightarrow> binary_to_text bits = Inr [bits_value (take 8 bits)]) \<and>
   binary_to_text [] = Inr []"
proof -
  have closed: "binary_to_text bits = Inr (map (\<lambda>j. bits_value (chunk bits j)) [0..<length bits div 8])"
    if "is_bits bits"
    using that by (rule binary_to_text_closed)
  have trunc: "binary_to_text bits = binary_to_text (take (8 * (length bits div 8)) bits)"
    if b: "is_bits bits"
  proof -
    let ?t = "take (8 * (length bits div 8)) bits"
    have tb: "is_bits ?t" using is_bits_take_drop[OF b, of "8 * (length bits div 8)" 0] by simp
    have len: "length ?t div 8 = length bits div 8" by simp
    have "map (\<lambda>j. bits_value (chunk ?t j)) [0..<length bits div 8]
        = map (\<lambda>j. bits_value (chunk bits j)) [0..<length bits div 8]"
    proof (rule map_cong[OF refl])
      fix j assume "j \<in> set [0..<length bits div 8]"
      then have "8 * j + 8 \<le> 8 * (length bits div 8)" by simp
      then have "chunk ?t j = chunk bits j"
        by (simp add: chunk_def drop_take min_def)
      then show "bits_value (chunk ?t j) = bits_value (chunk bits j)" by simp
    qed
    then show ?thesis
      by (simp only: binary_to_text_closed[OF b] binary_to_text_closed[OF tb] len)
  qed
  have twelve: "binary_to_text bits = Inr [bits_value (take 8 bits)]"
    if "is_bits bits" "length bits = 12"
    using that by (simp add: binary_to_text_closed chunk_def)
  have "binary_to_text [] = Inr []"
    by (simp add: binary_to_text_def btt_loop.simps)
  with closed trunc twelve show ?thesis by blast
qed

theorem binary_to_text_drops_trailing_witness:
  "is_bits ''010000010100'' \<and> length ''010000010100'' = 12 \<and>
   binary_to_text ''010000010100'' = Inr [65]"
  using binary_to_text_drops_trailing[of "''010000010100''"]
  by (simp add: is_bits_def bits_value_def chunk_def)

subsection \<open>C10: characters beyond one byte\<close>

text \<open>
  Claim C10. A character is written with exactly eight bits if and only if its code point
  is below 256; the format pads but never truncates, so the digits written always have
  the code point as their value. Hence \<open>text_to_binary\<close> has length \<open>8 * len(text)\<close> if and
  only if every code point is below 256; as soon as one is not, the output is longer than
  \<open>8 * len(text)\<close>, and reading it back in groups of eight does not give the text.
\<close>

theorem text_to_binary_wide_characters:
  "(length (format_08b c) = 8 \<longleftrightarrow> c < 256) \<and>
   bits_value (format_08b c) = c \<and>
   (length (text_to_binary text) = 8 * length text \<longleftrightarrow> (\<forall>c\<in>set text. c < 256)) \<and>
   ((\<exists>c\<in>set text. 256 \<le> c) \<longrightarrow>
      8 * length text < length (text_to_binary text) \<and>
      binary_to_text (text_to_binary text) \<noteq> Inr text)"
proof -
  have one: "length (format_08b c) = 8 \<longleftrightarrow> c < 256"
    using format_08b_length_byte[of c] format_08b_length_wide[of c] by (cases "c < 256") simp_all
  have wide: "8 * length text < length (text_to_binary text)" if "\<exists>c\<in>set text. 256 \<le> c"
    using that by (rule text_to_binary_length_wide)
  have all: "length (text_to_binary text) = 8 * length text \<longleftrightarrow> (\<forall>c\<in>set text. c < 256)"
  proof
    assume eq: "length (text_to_binary text) = 8 * length text"
    show "\<forall>c\<in>set text. c < 256"
    proof (rule ccontr)
      assume "\<not> (\<forall>c\<in>set text. c < 256)"
      then have "\<exists>c\<in>set text. 256 \<le> c" by (simp add: not_less)
      from wide[OF this] eq show False by simp
    qed
  next
    assume "\<forall>c\<in>set text. c < 256"
    then show "length (text_to_binary text) = 8 * length text"
      by (rule text_to_binary_length_bytes)
  qed
  have lossy: "binary_to_text (text_to_binary text) \<noteq> Inr text" if w: "\<exists>c\<in>set text. 256 \<le> c"
  proof
    assume "binary_to_text (text_to_binary text) = Inr text"
    with text_to_binary_is_bits have "\<forall>c\<in>set text. c < 256" by (rule binary_to_text_bytes)
    with w show False by auto
  qed
  from one all wide lossy show ?thesis by (simp add: bits_value_format_08b_any)
qed

theorem text_to_binary_wide_characters_witness:
  "(\<exists>c\<in>set [256, 65::nat]. 256 \<le> c) \<and>
   length (format_08b 256) \<noteq> 8 \<and>
   bits_value (format_08b 256) = 256 \<and>
   text_to_binary [256, 65] = ''10000000001000001'' \<and>
   length (text_to_binary [256, 65]) \<noteq> 8 * length [256, 65::nat] \<and>
   8 * length [256, 65::nat] < length (text_to_binary [256, 65]) \<and>
   binary_to_text (text_to_binary [256, 65]) = Inr [128, 32] \<and>
   binary_to_text (text_to_binary [256, 65]) \<noteq> Inr [256, 65]"
proof -
  have enc: "text_to_binary [256, 65] = ''10000000001000001''" by code_simp
  have dec: "binary_to_text (text_to_binary [256, 65]) = Inr [128, 32]" by code_simp
  from enc dec text_to_binary_wide_characters[of 256 "[256, 65]"] show ?thesis by simp
qed

subsection \<open>C4: length of the modulated buffer\<close>

text \<open>
  Claim C4. With a window length that is not negative, which every configuration valid
  in the specification's sense has (\<open>spec_valid_config_samples_per_bit\<close>),
  \<open>generate_encoded_sound\<close> returns a buffer for every bit string, the empty one included:
  it raises none of its errors, and the buffer has exactly \<open>len(binary) * samples_per_bit\<close>
  samples.
\<close>

theorem generate_encoded_sound_length:
  assumes "0 \<le> samples_per_bit cfg"
  shows "\<exists>samples. generate_encoded_sound cfg rnd binary = Inr samples \<and>
           length samples = length binary * nat (samples_per_bit cfg)"
  using generate_encoded_sound_closed[OF assms, of rnd binary] by simp

theorem generate_encoded_sound_length_witness:
  "spec_valid_config encoder_config \<and> 0 \<le> samples_per_bit encoder_config \<and>
   (\<exists>samples. generate_encoded_sound encoder_config (\<lambda>k. 1 / 2) ''01'' = Inr samples \<and>
      length samples = 882) \<and>
   (\<exists>samples. generate_encoded_sound encoder_config (\<lambda>k. 1 / 2) [] = Inr samples \<and>
      length samples = 0)"
proof -
  have v: "spec_valid_config encoder_config"
    by (simp add: spec_valid_config_def spec_samples_per_bit_def encoder_config_def)
  then have h: "0 \<le> samples_per_bit encoder_config"
    by (rule spec_valid_config_samples_per_bit)
  from v h generate_encoded_sound_length[OF h, of "\<lambda>k. 1 / 2" "''01''"]
    generate_encoded_sound_length[OF h, of "\<lambda>k. 1 / 2" "[]"]
  show ?thesis by (simp add: samples_per_bit_encoder_config)
qed

subsection \<open>C6: the waveform\<close>

text \<open>
  Claim C6. The buffer is indexed by one sample index \<open>n\<close> that starts at 0 and runs
  through the whole buffer: sample \<open>n\<close> belongs to bit \<open>n div samples_per_bit\<close> and equals
  \<open>amplitude * sin(2 pi * frequency * (n / sample_rate)) + noise\<close>, where \<open>frequency\<close> is
  \<open>frequency_1\<close> if that bit is \<open>1\<close> and \<open>frequency_0\<close> otherwise, and \<open>noise\<close> is the
  \<open>n\<close>-th draw of \<open>random.uniform\<close> over the noise range; a draw lies in the range when the
  range is ordered and the underlying random number lies in the unit interval.
\<close>

theorem generate_encoded_sound_waveform:
  assumes "0 \<le> samples_per_bit cfg"
  shows "generate_encoded_sound cfg rnd binary =
           Inr (map (\<lambda>n. amplitude cfg *
                        sin (2 * pi *
                             (if binary ! (n div nat (samples_per_bit cfg)) = CHR ''1''
                              then frequency_1 cfg else frequency_0 cfg) *
                             (real n / real_of_int (sample_rate cfg)))
                      + uniform (fst (noise_range cfg)) (snd (noise_range cfg)) (rnd n))
                  [0..<length binary * nat (samples_per_bit cfg)]) \<and>
         (fst (noise_range cfg) \<le> snd (noise_range cfg) \<and> 0 \<le> rnd n \<and> rnd n \<le> 1 \<longrightarrow>
            fst (noise_range cfg) \<le> uniform (fst (noise_range cfg)) (snd (noise_range cfg)) (rnd n) \<and>
            uniform (fst (noise_range cfg)) (snd (noise_range cfg)) (rnd n) \<le> snd (noise_range cfg))"
proof -
  have bounds: "a \<le> uniform a b u \<and> uniform a b u \<le> b"
    if "a \<le> b" "0 \<le> u" "u \<le> 1" for a b u :: real
  proof -
    have "0 \<le> (b - a) * u" using that by simp
    moreover have "(b - a) * u \<le> (b - a) * 1"
      using that by (intro mult_left_mono) simp_all
    ultimately show ?thesis by (simp add: uniform_def)
  qed
  show ?thesis
    using generate_encoded_sound_closed[OF assms, of rnd binary] bounds
    by (simp add: wave_def tone_def)
qed

theorem generate_encoded_sound_waveform_witness:
  "0 \<le> samples_per_bit alias_config \<and>
   generate_encoded_sound alias_config (\<lambda>k. 1 / 2) ''0'' = Inr [0, 1, 0, - 1] \<and>
   fst (noise_range encoder_config) \<le> uniform (fst (noise_range encoder_config))
      (snd (noise_range encoder_config)) (1 / 2)"
proof -
  have spb: "samples_per_bit alias_config = 4"
    by (simp add: samples_per_bit_def py_int_def alias_config_def)
  have s3: "sin (pi * 3 / 2) = - 1"
  proof -
    have "pi * 3 / 2 = pi / 2 + pi" by simp
    then show ?thesis by (simp only: sin_periodic_pi sin_pi_half)
  qed
  have s1: "sin (2 * pi * (1 / 4)) = 1"
  proof -
    have "2 * pi * (1 / 4) = pi / 2" by simp
    then show ?thesis by (simp only: sin_pi_half)
  qed
  have s2: "sin (2 * pi * (2 / 4)) = 0" by simp
  have cfg: "sample_rate alias_config = 4" "amplitude alias_config = 1"
    "frequency_0 alias_config = 1" "noise_range alias_config = (0, 0)"
    by (simp_all add: alias_config_def)
  have "[0..<4] = [0, 1, 2, 3::nat]" by (simp add: upt_rec)
  then have one: "generate_encoded_sound alias_config (\<lambda>k. 1 / 2) ''0'' = Inr [0, 1, 0, - 1]"
    using generate_encoded_sound_waveform[of alias_config "\<lambda>k. 1 / 2" "''0''" 0] s1 s2 s3
    by (simp add: spb cfg uniform_def)
  have two: "fst (noise_range encoder_config) \<le> uniform (fst (noise_range encoder_config))
      (snd (noise_range encoder_config)) (1 / 2)"
  proof -
    have h: "0 \<le> samples_per_bit encoder_config" by (simp add: samples_per_bit_encoder_config)
    have nr: "fst (noise_range encoder_config) = - (5 / 100)"
      "snd (noise_range encoder_config) = 5 / 100"
      by (simp_all add: encoder_config_def)
    from generate_encoded_sound_waveform[OF h, of "\<lambda>k. 1 / 2" "[]" 0] show ?thesis
      by (simp add: nr)
  qed
  from one two spb show ?thesis by simp
qed


subsection \<open>C5: number of decoded bits\<close>

text \<open>
  Claim C5. With a window of at least one sample, \<open>decode_audio_to_binary\<close> returns
  for every buffer, without error, exactly \<open>len(samples) div samples_per_bit\<close> bits; the
  samples after the last complete window do not matter, since the buffer cut after that
  window decodes to the same bits; and a buffer shorter than one window, the empty buffer
  included, gives the empty bit string.
\<close>

theorem decode_audio_to_binary_length:
  assumes "1 \<le> samples_per_bit cfg"
  shows "\<exists>binary. decode_audio_to_binary cfg samples = Inr binary \<and>
           length binary = length samples div nat (samples_per_bit cfg) \<and>
           decode_audio_to_binary cfg
             (take (length binary * nat (samples_per_bit cfg)) samples) = Inr binary \<and>
           (length samples < nat (samples_per_bit cfg) \<longrightarrow> binary = [])"
proof -
  let ?N = "nat (samples_per_bit cfg)"
  let ?L = "length samples div ?N"
  let ?cut = "take (?L * ?N) samples"
  let ?bits = "\<lambda>s. map (\<lambda>i. classify cfg (dominant_freq cfg (segment_at cfg s i))) [0..<?L]"
  have N: "0 < ?N" using assms by simp
  have dec: "decode_audio_to_binary cfg samples = Inr (?bits samples)"
    by (rule decode_closed[OF assms])
  have "?L * ?N \<le> length samples" by simp
  then have "length ?cut = ?L * ?N" by simp
  then have cutL: "length ?cut div ?N = ?L" using N by simp
  have seg: "segment_at cfg ?cut i = segment_at cfg samples i" if "i < ?L" for i
  proof -
    from that have "Suc i \<le> ?L" by simp
    then have "Suc i * ?N \<le> ?L * ?N" by (rule mult_le_mono1)
    then have "?N \<le> ?L * ?N - i * ?N" by simp
    then show ?thesis by (simp add: segment_at_def drop_take min_def)
  qed
  have "?bits ?cut = ?bits samples"
    by (rule map_cong[OF refl]) (simp add: seg)
  then have cut: "decode_audio_to_binary cfg ?cut = Inr (?bits samples)"
    by (simp only: decode_closed[OF assms] cutL)
  have short: "?bits samples = []" if "length samples < ?N"
    using that by simp
  from dec cut short show ?thesis by simp
qed

theorem decode_audio_to_binary_length_witness:
  "1 \<le> samples_per_bit tie_config \<and>
   (\<exists>binary. decode_audio_to_binary tie_config [0, 1, 0, - 1, 0, 1] = Inr binary \<and>
      length binary = 1 \<and>
      decode_audio_to_binary tie_config [0, 1, 0, - 1] = Inr binary) \<and>
   decode_audio_to_binary tie_config [0, 1, 0] = Inr [] \<and>
   decode_audio_to_binary tie_config [] = Inr []"
proof -
  have h: "1 \<le> samples_per_bit tie_config" by (simp add: samples_per_bit_tie_config)
  from decode_audio_to_binary_length[OF h, of "[0, 1, 0, - 1, 0, 1]"]
  obtain binary where "decode_audio_to_binary tie_config [0, 1, 0, - 1, 0, 1] = Inr binary"
    and "length binary = 1"
    and "decode_audio_to_binary tie_config (take (length binary * 4) [0, 1, 0, - 1, 0, 1])
           = Inr binary"
    by (auto simp: samples_per_bit_tie_config)
  then have one: "\<exists>binary. decode_audio_to_binary tie_config [0, 1, 0, - 1, 0, 1] = Inr binary \<and>
      length binary = 1 \<and>
      decode_audio_to_binary tie_config [0, 1, 0, - 1] = Inr binary"
    by (intro exI[of _ binary]) simp
  have two: "decode_audio_to_binary tie_config [0, 1, 0] = Inr []"
    using decode_audio_to_binary_length[OF h, of "[0, 1, 0]"]
    by (simp add: samples_per_bit_tie_config)
  have three: "decode_audio_to_binary tie_config [] = Inr []"
    using decode_audio_to_binary_length[OF h, of "[]"]
    by (simp add: samples_per_bit_tie_config)
  from h one two three show ?thesis by (intro conjI)
qed

subsection \<open>C3: classification of a window\<close>

text \<open>
  Claim C3. With a window of at least one sample, bit \<open>i\<close> of the decoder's output is \<open>1\<close>
  if and only if the dominant frequency of window \<open>i\<close> is strictly closer to \<open>frequency_1\<close>
  than to \<open>frequency_0\<close>, and is \<open>0\<close> otherwise; in particular it is \<open>0\<close> when the two
  distances are equal.
\<close>

theorem decode_audio_to_binary_classifies:
  assumes "1 \<le> samples_per_bit cfg"
  shows "\<exists>binary. decode_audio_to_binary cfg samples = Inr binary \<and>
           length binary = length samples div nat (samples_per_bit cfg) \<and>
           (\<forall>i<length binary.
              (binary ! i = CHR ''1'' \<longleftrightarrow>
                 \<bar>dominant_freq cfg (segment_at cfg samples i) - frequency_1 cfg\<bar>
                   < \<bar>dominant_freq cfg (segment_at cfg samples i) - frequency_0 cfg\<bar>) \<and>
              (binary ! i = CHR ''0'' \<longleftrightarrow>
                 \<not> \<bar>dominant_freq cfg (segment_at cfg samples i) - frequency_1 cfg\<bar>
                   < \<bar>dominant_freq cfg (segment_at cfg samples i) - frequency_0 cfg\<bar>) \<and>
              (\<bar>dominant_freq cfg (segment_at cfg samples i) - frequency_1 cfg\<bar>
                   = \<bar>dominant_freq cfg (segment_at cfg samples i) - frequency_0 cfg\<bar>
                 \<longrightarrow> binary ! i = CHR ''0''))"
  by (simp add: decode_closed[OF assms] classify_def)

theorem decode_audio_to_binary_classifies_witness:
  "1 \<le> samples_per_bit tie_config \<and>
   dominant_freq tie_config (segment_at tie_config [0, 1, 0, - 1] 0) = 1 \<and>
   \<bar>1 - frequency_1 tie_config\<bar> = \<bar>1 - frequency_0 tie_config\<bar> \<and>
   decode_audio_to_binary tie_config [0, 1, 0, - 1] = Inr ''0''"
proof -
  have h: "1 \<le> samples_per_bit tie_config" by (simp add: samples_per_bit_tie_config)
  have seg: "segment_at tie_config [0, 1, 0, - 1] 0 = [0, 1, 0, - 1]"
    by (simp add: segment_at_def samples_per_bit_tie_config)
  have eq: "\<bar>1 - frequency_1 tie_config\<bar> = \<bar>1 - frequency_0 tie_config\<bar>"
    by (simp add: tie_config_def)
  from decode_audio_to_binary_classifies[OF h, of "[0, 1, 0, - 1]"]
  obtain binary where b: "decode_audio_to_binary tie_config [0, 1, 0, - 1] = Inr binary"
    and len: "length binary = 1"
    and tie: "\<bar>dominant_freq tie_config (segment_at tie_config [0, 1, 0, - 1] 0) - frequency_1 tie_config\<bar>
                   = \<bar>dominant_freq tie_config (segment_at tie_config [0, 1, 0, - 1] 0) - frequency_0 tie_config\<bar>
                 \<longrightarrow> binary ! 0 = CHR ''0''"
    by (auto simp: samples_per_bit_tie_config)
  from tie eq have "binary ! 0 = CHR ''0''" by (simp add: seg dominant_freq_tie_window)
  with len have "binary = ''0''" by (cases binary) simp_all
  with b h seg eq show ?thesis by (simp add: dominant_freq_tie_window)
qed

subsection \<open>C2: the window length\<close>

text \<open>
  Claim C2, amended. For a positive bit duration and a positive sample rate,
  \<open>samples_per_bit\<close> is the product \<open>bit_duration * sample_rate\<close> truncated to an integer,
  that is its floor, not its rounding to the nearest integer: it is the rounded value or
  one less. It is at least 1 if and only if the product is at least 1.
\<close>

theorem samples_per_bit_truncates:
  assumes "0 < bit_duration cfg" and "0 < sample_rate cfg"
  shows "samples_per_bit cfg = \<lfloor>bit_duration cfg * real_of_int (sample_rate cfg)\<rfloor> \<and>
         (1 \<le> samples_per_bit cfg \<longleftrightarrow> 1 \<le> bit_duration cfg * real_of_int (sample_rate cfg)) \<and>
         samples_per_bit cfg \<le> spec_samples_per_bit cfg \<and>
         spec_samples_per_bit cfg \<le> samples_per_bit cfg + 1"
proof -
  let ?p = "bit_duration cfg * real_of_int (sample_rate cfg)"
  have pos: "0 \<le> ?p" using assms by simp
  then have fl: "samples_per_bit cfg = \<lfloor>?p\<rfloor>" by (simp add: samples_per_bit_def py_int_def)
  have ge: "1 \<le> \<lfloor>?p\<rfloor> \<longleftrightarrow> 1 \<le> ?p" by (simp add: le_floor_iff)
  have lo: "\<lfloor>?p\<rfloor> \<le> round ?p" unfolding round_def by (rule floor_mono) simp
  have "round ?p \<le> \<lfloor>?p + 1\<rfloor>" unfolding round_def by (rule floor_mono) simp
  then have hi: "round ?p \<le> \<lfloor>?p\<rfloor> + 1" by simp
  from fl ge lo hi show ?thesis by (simp add: spec_samples_per_bit_def)
qed

theorem samples_per_bit_truncates_witness:
  "0 < bit_duration encoder_config \<and> 0 < sample_rate encoder_config \<and>
   samples_per_bit encoder_config = 441 \<and> 1 \<le> samples_per_bit encoder_config \<and>
   samples_per_bit encoder_config \<le> spec_samples_per_bit encoder_config"
  using samples_per_bit_truncates[of encoder_config]
  by (simp add: encoder_config_def)

text \<open>
  Claim C2 as stated fails: with three samples per second and a bit of a quarter
  second the product is 0.75; the configuration is valid in the specification's sense,
  whose rounded window length is 1, but the scripts' \<open>int\<close> gives 0.
\<close>

theorem samples_per_bit_round_counterexample:
  "spec_valid_config short_config \<and>
   round (bit_duration short_config * real_of_int (sample_rate short_config)) = 1 \<and>
   samples_per_bit short_config = 0 \<and>
   samples_per_bit short_config
     \<noteq> round (bit_duration short_config * real_of_int (sample_rate short_config)) \<and>
   \<not> 1 \<le> samples_per_bit short_config"
  by (simp add: spec_valid_config_def spec_samples_per_bit_def samples_per_bit_def py_int_def
      short_config_def round_def)


subsection \<open>C9: the demodulator is a function of the buffer\<close>

text \<open>
  Claim C9. \<open>decode_audio_to_binary\<close> reads its parameters and the buffer and nothing
  else, so two runs on the same buffer return the same result. No state is carried from
  one window to the next either: whenever two buffers agree on window \<open>i\<close>, the two
  decoded strings agree on bit \<open>i\<close>.
\<close>

theorem decode_audio_to_binary_deterministic:
  "(samples1 = samples2 \<longrightarrow>
      decode_audio_to_binary cfg samples1 = decode_audio_to_binary cfg samples2) \<and>
   (1 \<le> samples_per_bit cfg \<and>
    decode_audio_to_binary cfg samples1 = Inr binary1 \<and>
    decode_audio_to_binary cfg samples2 = Inr binary2 \<and>
    i < length binary1 \<and> i < length binary2 \<and>
    segment_at cfg samples1 i = segment_at cfg samples2 i
    \<longrightarrow> binary1 ! i = binary2 ! i)"
proof -
  have "binary1 ! i = binary2 ! i"
    if spb: "1 \<le> samples_per_bit cfg"
      and d1: "decode_audio_to_binary cfg samples1 = Inr binary1"
      and d2: "decode_audio_to_binary cfg samples2 = Inr binary2"
      and i1: "i < length binary1" and i2: "i < length binary2"
      and seg: "segment_at cfg samples1 i = segment_at cfg samples2 i"
  proof -
    from d1 i1 have "binary1 ! i = classify cfg (dominant_freq cfg (segment_at cfg samples1 i))"
      by (auto simp: decode_closed[OF spb])
    moreover from d2 i2
    have "binary2 ! i = classify cfg (dominant_freq cfg (segment_at cfg samples2 i))"
      by (auto simp: decode_closed[OF spb])
    ultimately show ?thesis by (simp only: seg)
  qed
  then show ?thesis by blast
qed

theorem decode_audio_to_binary_deterministic_witness:
  "1 \<le> samples_per_bit tie_config \<and>
   segment_at tie_config [0, 1, 0, - 1, 0, 0, 0, 0] 0 = segment_at tie_config [0, 1, 0, - 1, 1, 1, 1, 1] 0 \<and>
   (\<exists>binary1 binary2.
      decode_audio_to_binary tie_config [0, 1, 0, - 1, 0, 0, 0, 0] = Inr binary1 \<and>
      decode_audio_to_binary tie_config [0, 1, 0, - 1, 1, 1, 1, 1] = Inr binary2 \<and>
      length binary1 = 2 \<and> length binary2 = 2 \<and> binary1 ! 0 = binary2 ! 0)"
proof -
  have h: "1 \<le> samples_per_bit tie_config" by (simp add: samples_per_bit_tie_config)
  have seg: "segment_at tie_config [0, 1, 0, - 1, 0, 0, 0, 0] 0
           = segment_at tie_config [0, 1, 0, - 1, 1, 1, 1, 1] 0"
    by (simp add: segment_at_def samples_per_bit_tie_config)
  obtain binary1 where b1: "decode_audio_to_binary tie_config [0, 1, 0, - 1, 0, 0, 0, 0] = Inr binary1"
    and l1: "length binary1 = 2"
    using decode_closed[OF h, of "[0, 1, 0, - 1, 0, 0, 0, 0]"]
    by (simp add: samples_per_bit_tie_config)
  obtain binary2 where b2: "decode_audio_to_binary tie_config [0, 1, 0, - 1, 1, 1, 1, 1] = Inr binary2"
    and l2: "length binary2 = 2"
    using decode_closed[OF h, of "[0, 1, 0, - 1, 1, 1, 1, 1]"]
    by (simp add: samples_per_bit_tie_config)
  have "binary1 ! 0 = binary2 ! 0"
    using decode_audio_to_binary_deterministic[of "[0, 1, 0, - 1, 0, 0, 0, 0]"
        "[0, 1, 0, - 1, 1, 1, 1, 1]" tie_config binary1 binary2 0] h b1 b2 l1 l2 seg
    by simp
  with h seg b1 b2 l1 l2 show ?thesis by blast
qed

subsection \<open>C1: encoding followed by decoding\<close>




end
